theory Spec2Isabelle
  imports Main
begin

section \<open>The recency-ordered ledger of project.py\<close>

text \<open>
  The ledger of \<^verbatim>\<open>project.py\<close> is a Python \<^verbatim>\<open>OrderedDict\<close> from keys
  \<^verbatim>\<open>(filename, name)\<close> to lists of interests. It is loaded from a CSV file
  (\<^verbatim>\<open>load_csv_into_ordereddict\<close>), changed by the loop over the extracted people in
  \<^verbatim>\<open>main\<close> and written back (\<^verbatim>\<open>write_ordereddict_to_csv\<close>).

  A Python \<^verbatim>\<open>str\<close> is a \<^typ>\<open>string\<close>; a character stands for a code point below 256.
  A cell that is a \<^verbatim>\<open>str\<close> or \<^verbatim>\<open>None\<close> is a \<^typ>\<open>string option\<close>.
\<close>

type_synonym cell = "string option"

subsection \<open>OrderedDict\<close>

text \<open>
  An \<^verbatim>\<open>OrderedDict\<close> is the list of its items in insertion order. The operations
  below keep the keys distinct.
\<close>

type_synonym ('k, 'v) ordered_dict = "('k \<times> 'v) list"

text \<open>\<^verbatim>\<open>od[key]\<close>; \<^const>\<open>None\<close> where Python raises \<^verbatim>\<open>KeyError\<close>. \<^verbatim>\<open>key in od\<close> is
  \<open>od_getitem od key \<noteq> None\<close>.\<close>

definition od_getitem :: "('k, 'v) ordered_dict \<Rightarrow> 'k \<Rightarrow> 'v option" where
  "od_getitem od key = map_of od key"

definition od_keys :: "('k, 'v) ordered_dict \<Rightarrow> 'k list" where
  "od_keys od = map fst od"

text \<open>\<^verbatim>\<open>od[key] = v\<close>: a key that is present keeps its position and takes the new
  value, a new key is appended.\<close>

fun od_setitem :: "('k, 'v) ordered_dict \<Rightarrow> 'k \<Rightarrow> 'v \<Rightarrow> ('k, 'v) ordered_dict" where
  "od_setitem [] key v = [(key, v)]"
| "od_setitem ((k, w) # od) key v =
     (if k = key then (k, v) # od else (k, w) # od_setitem od key v)"

text \<open>\<^verbatim>\<open>del od[key]\<close>. Python raises \<^verbatim>\<open>KeyError\<close> for an absent key; the one
  call in \<^verbatim>\<open>main\<close> stands under \<^verbatim>\<open>if key in od\<close>.\<close>

definition od_delitem :: "('k, 'v) ordered_dict \<Rightarrow> 'k \<Rightarrow> ('k, 'v) ordered_dict" where
  "od_delitem od key = filter (\<lambda>item. fst item \<noteq> key) od"

subsection \<open>Sets of strings\<close>

text \<open>
  A Python \<^verbatim>\<open>set\<close> is represented by the list of its elements, each once, in order
  of first insertion. \<^verbatim>\<open>list(s)\<close> yields the elements in the iteration order of the
  set, which CPython derives from the hashes of the elements and the language leaves open.
  That order is the parameter \<open>iter_order\<close>: \<open>py_list\<close> follows it wherever it
  rearranges the elements, so every rearrangement is covered.
\<close>

fun py_set_add :: "'a list \<Rightarrow> 'a \<Rightarrow> 'a list" where
  "py_set_add s x = (if x \<in> set s then s else s @ [x])"

definition py_set :: "'a list \<Rightarrow> 'a list" where
  "py_set xs = foldl py_set_add [] xs"

definition py_set_union :: "'a list \<Rightarrow> 'a list \<Rightarrow> 'a list" where
  "py_set_union s xs = foldl py_set_add s xs"

definition py_list :: "('a list \<Rightarrow> 'a list) \<Rightarrow> 'a list \<Rightarrow> 'a list" where
  "py_list iter_order s =
     (if distinct (iter_order s) \<and> set (iter_order s) = set s then iter_order s else s)"

subsection \<open>The upsert of main\<close>

text \<open>
  Lines 223 to 232 of \<^verbatim>\<open>project.py\<close>:
  \<^verbatim>\<open>
  if key in od:
      merged = list(set(od[key]).union(interests))
      del od[key]
      od[key] = merged
  else:
      od[key] = interests
  \<close>
\<close>

definition upsert ::
  "(string list \<Rightarrow> string list) \<Rightarrow> ('k, string list) ordered_dict \<Rightarrow> 'k \<Rightarrow> string list
     \<Rightarrow> ('k, string list) ordered_dict" where
  "upsert iter_order od key interests =
     (case od_getitem od key of
        Some old \<Rightarrow>
          (let merged = py_list iter_order (py_set_union (py_set old) interests)
           in od_setitem (od_delitem od key) key merged)
      | None \<Rightarrow> od_setitem od key interests)"

text \<open>A run of upserts, in order.\<close>

fun upserts ::
  "(string list \<Rightarrow> string list) \<Rightarrow> ('k, string list) ordered_dict \<Rightarrow> ('k \<times> string list) list
     \<Rightarrow> ('k, string list) ordered_dict" where
  "upserts iter_order od [] = od"
| "upserts iter_order od ((key, interests) # facts) =
     upserts iter_order (upsert iter_order od key interests) facts"

text \<open>The interests an upsert stores for its key.\<close>

definition stored :: "(string list \<Rightarrow> string list) \<Rightarrow> ('k, string list) ordered_dict \<Rightarrow> 'k
    \<Rightarrow> string list \<Rightarrow> string list" where
  "stored iter_order od key interests =
     (case od_getitem od key of
        Some old \<Rightarrow> py_list iter_order (py_set_union (py_set old) interests)
      | None \<Rightarrow> interests)"


text \<open>The interests stored for a key, as a set.\<close>

definition od_interests :: "('k, string list) ordered_dict \<Rightarrow> 'k \<Rightarrow> string set option" where
  "od_interests od key = map_option set (od_getitem od key)"

subsection \<open>The loop over the extracted people\<close>

text \<open>
  \<^verbatim>\<open>str.strip()\<close> removes the leading and trailing whitespace; below code point 256
  the whitespace of Python is 9 to 13, 28 to 32, 133 and 160.
\<close>

definition py_isspace :: "char \<Rightarrow> bool" where
  "py_isspace c =
     (let n = (of_char c :: nat)
      in (9 \<le> n \<and> n \<le> 13) \<or> (28 \<le> n \<and> n \<le> 32) \<or> n = 133 \<or> n = 160)"

definition strip :: "string \<Rightarrow> string" where
  "strip s = rev (dropWhile py_isspace (rev (dropWhile py_isspace s)))"

text \<open>
  One object of the list \<^verbatim>\<open>analyze_text_with_deepseek\<close> returns. The loop reads it
  with \<^verbatim>\<open>person.get("name", "")\<close> and \<^verbatim>\<open>person.get("interests", [])\<close>: a field is
  \<^const>\<open>None\<close> when the object lacks the key. The name is a string and the interests
  are a list of strings, as the prompt of \<^verbatim>\<open>analyze_text_with_deepseek\<close> asks for.
\<close>

record person =
  get_name :: "string option"
  get_interests :: "string list option"

text \<open>
  Lines 219 to 232, for one input file; \<open>base\<close> is \<^verbatim>\<open>os.path.basename(path)\<close>:
  \<^verbatim>\<open>
  for person in people:
      name = person.get("name", "").strip()
      interests = person.get("interests", [])
      key = (os.path.basename(path), name)
      if key in od: ... else: ...
  \<close>
\<close>

fun main_people ::
  "(string list \<Rightarrow> string list) \<Rightarrow> string \<Rightarrow> (cell \<times> cell, string list) ordered_dict
     \<Rightarrow> person list \<Rightarrow> (cell \<times> cell, string list) ordered_dict" where
  "main_people iter_order base od [] = od"
| "main_people iter_order base od (p # people) =
     (let name = strip (case get_name p of None \<Rightarrow> [] | Some n \<Rightarrow> n);
          interests = (case get_interests p of None \<Rightarrow> [] | Some i \<Rightarrow> i);
          key = (Some base, Some name)
      in main_people iter_order base (upsert iter_order od key interests) people)"

subsection \<open>json.dumps on a list of strings\<close>

text \<open>
  \<^verbatim>\<open>json.dumps(interests, ensure_ascii=False)\<close> writes a list of strings as
  \<^verbatim>\<open>["a", "b"]\<close>. In a string the quote and the backslash are escaped with a
  backslash, the control characters 8, 9, 10, 12 and 13 are written
  \<^verbatim>\<open>\b \t \n \f \r\<close>, every other character below 32 as \<^verbatim>\<open>\u00XX\<close> with
  lower-case hexadecimal digits, and every other character stands for itself.
\<close>

definition hexdigit :: "nat \<Rightarrow> char" where
  "hexdigit n = ''0123456789abcdef'' ! (n mod 16)"

definition json_escape :: "char \<Rightarrow> string" where
  "json_escape c =
     (if c = CHR 0x22 then [CHR 0x5C, CHR 0x22]
      else if c = CHR 0x5C then [CHR 0x5C, CHR 0x5C]
      else if c = CHR 0x08 then [CHR 0x5C, CHR ''b'']
      else if c = CHR 0x0C then [CHR 0x5C, CHR ''f'']
      else if c = CHR 0x0A then [CHR 0x5C, CHR ''n'']
      else if c = CHR 0x0D then [CHR 0x5C, CHR ''r'']
      else if c = CHR 0x09 then [CHR 0x5C, CHR ''t'']
      else if (of_char c :: nat) < 32
        then [CHR 0x5C, CHR ''u'', CHR ''0'', CHR ''0'',
              hexdigit (of_char c div 16), hexdigit (of_char c mod 16)]
      else [c])"

definition py_encode_basestring :: "string \<Rightarrow> string" where
  "py_encode_basestring s = CHR 0x22 # concat (map json_escape s) @ [CHR 0x22]"

fun str_join :: "string \<Rightarrow> string list \<Rightarrow> string" where
  "str_join sep [] = []"
| "str_join sep [x] = x"
| "str_join sep (x # y # ys) = x @ sep @ str_join sep (y # ys)"

definition json_dumps :: "string list \<Rightarrow> string" where
  "json_dumps xs = ''['' @ str_join '', '' (map py_encode_basestring xs) @ '']''"

subsection \<open>The same step in test.py\<close>

text \<open>
  \<^verbatim>\<open>test.py\<close> is the variant of the script that stores one person per file in a
  table \<^verbatim>\<open>people\<close>, here the list of its rows \<^verbatim>\<open>(name, interests)\<close> in order of
  insertion. Lines 32 to 38 and 120 to 123:
  \<^verbatim>\<open>
  name = data.get("name", "").strip()
  interests = data.get("interests", [])
  if name and isinstance(interests, list):
      save_person(conn, name, interests)
  \<close>
  The interests of a \<^typ>\<open>person\<close> are a list, so the second test holds.
\<close>

definition save_person :: "(string \<times> string) list \<Rightarrow> string \<Rightarrow> string list \<Rightarrow> (string \<times> string) list" where
  "save_person conn name interests = conn @ [(name, json_dumps interests)]"

definition test_main_person :: "(string \<times> string) list \<Rightarrow> person \<Rightarrow> (string \<times> string) list" where
  "test_main_person conn data =
     (let name = strip (case get_name data of None \<Rightarrow> [] | Some n \<Rightarrow> n);
          interests = (case get_interests data of None \<Rightarrow> [] | Some i \<Rightarrow> i)
      in if name \<noteq> [] then save_person conn name interests else conn)"

subsection \<open>Writing the ledger\<close>

text \<open>
  A CSV file is the list of its rows, each the list of its cells, as \<^verbatim>\<open>csv.writer\<close>
  takes them and \<^verbatim>\<open>csv.reader\<close> yields them; the quoting of cells in the text of the
  file is the library's and is not modelled. The writer writes \<^verbatim>\<open>None\<close> as the
  empty cell.
\<close>

definition CSV_FIELDS :: "string list" where
  "CSV_FIELDS = [''filename'', ''name'', ''interests'']"

definition cell_text :: "cell \<Rightarrow> string" where
  "cell_text c = (case c of None \<Rightarrow> [] | Some s \<Rightarrow> s)"

definition write_ordereddict_to_csv ::
  "(cell \<times> cell, string list) ordered_dict \<Rightarrow> string list list" where
  "write_ordereddict_to_csv od =
     CSV_FIELDS #
     map (\<lambda>((fn, name), interests). [cell_text fn, cell_text name, json_dumps interests]) od"

subsection \<open>Loading the ledger\<close>

text \<open>
  \<^verbatim>\<open>csv.DictReader\<close> takes the first row of the file as the field names and yields
  every later row that is not empty as a dict: \<^verbatim>\<open>dict(zip(fieldnames, row))\<close>, with
  \<^verbatim>\<open>None\<close> for the fields of a row that is too short (the cells beyond the field
  names go under the key \<^verbatim>\<open>None\<close>, which no lookup below reads).
\<close>

datatype error = KeyError string | CsvError

definition DictReader_row :: "string list \<Rightarrow> string list \<Rightarrow> (string \<rightharpoonup> cell)" where
  "DictReader_row fieldnames row =
     map_of (rev (zip fieldnames
       (map Some row @ replicate (length fieldnames - length row) None)))"

definition row_getitem :: "(string \<rightharpoonup> cell) \<Rightarrow> string \<Rightarrow> error + cell" where
  "row_getitem row col = (case row col of None \<Rightarrow> Inl (KeyError col) | Some c \<Rightarrow> Inr c)"

text \<open>
  The loader stores whatever \<^verbatim>\<open>json.loads\<close> returns for the interests cell, a list of
  strings or not. \<open>Interests xs\<close> is the list of strings \<open>xs\<close>; \<open>Decoded t\<close> stands for the
  value \<^verbatim>\<open>json.loads\<close> returns for the text \<open>t\<close> when that value is no list of strings
  (a number, \<^verbatim>\<open>None\<close>, a string, a dict, a list with another element, a string with a
  code point beyond 255): the loader only stores it, so the text it came from is kept in
  its place.
\<close>

datatype pyvalue = Interests "string list" | Decoded string

text \<open>
  \<^verbatim>\<open>json.loads\<close> is the parameter \<open>json_loads\<close>: \<open>Some v\<close> when it returns \<open>v\<close>,
  \<^const>\<open>None\<close> when it raises. The source reads the interests under
  \<^verbatim>\<open>try: ... except: interests = []\<close>, which also catches the \<^verbatim>\<open>KeyError\<close> of a
  missing column and the \<^verbatim>\<open>TypeError\<close> of \<^verbatim>\<open>json.loads(None)\<close>:
  \<^verbatim>\<open>
  for row in reader:
      key = (row["filename"], row["name"])
      try:
          interests = json.loads(row["interests"])
      except:
          interests = []
      od[key] = interests
  \<close>
\<close>

definition row_interests :: "(string \<Rightarrow> pyvalue option) \<Rightarrow> (string \<rightharpoonup> cell) \<Rightarrow> pyvalue" where
  "row_interests json_loads row =
     (case row_getitem row ''interests'' of
        Inr (Some text) \<Rightarrow> (case json_loads text of Some v \<Rightarrow> v | None \<Rightarrow> Interests [])
      | Inr None \<Rightarrow> Interests []
      | Inl e \<Rightarrow> Interests [])"

fun load_rows ::
  "(string \<Rightarrow> pyvalue option) \<Rightarrow> string list \<Rightarrow> (cell \<times> cell, pyvalue) ordered_dict
     \<Rightarrow> string list list \<Rightarrow> error + (cell \<times> cell, pyvalue) ordered_dict" where
  "load_rows json_loads fieldnames od [] = Inr od"
| "load_rows json_loads fieldnames od (r # rows) =
     (let row = DictReader_row fieldnames r
      in case row_getitem row ''filename'' of
           Inl e \<Rightarrow> Inl e
         | Inr filename \<Rightarrow>
             (case row_getitem row ''name'' of
                Inl e \<Rightarrow> Inl e
              | Inr name \<Rightarrow>
                  load_rows json_loads fieldnames
                    (od_setitem od (filename, name) (row_interests json_loads row)) rows))"

text \<open>The file is \<^const>\<open>None\<close> when \<^verbatim>\<open>os.path.isfile(path)\<close> is false.\<close>

definition load_csv_into_ordereddict ::
  "(string \<Rightarrow> pyvalue option) \<Rightarrow> string list list option
     \<Rightarrow> error + (cell \<times> cell, pyvalue) ordered_dict" where
  "load_csv_into_ordereddict json_loads file =
     (case file of
        None \<Rightarrow> Inr []
      | Some [] \<Rightarrow> Inr []
      | Some (fieldnames # rows) \<Rightarrow>
          load_rows json_loads fieldnames [] (filter (\<lambda>r. r \<noteq> []) rows))"

text \<open>
  The loop of \<^verbatim>\<open>main\<close> and the writer take the loaded ledger with every value a list
  of strings; \<open>interest_lists\<close> is that ledger. With any other value the set operations of
  the upsert and \<^verbatim>\<open>json.dumps\<close> are outside what is modelled here, and the answer is
  \<^const>\<open>None\<close>.
\<close>

fun interest_lists :: "('k, pyvalue) ordered_dict \<Rightarrow> ('k, string list) ordered_dict option" where
  "interest_lists [] = Some []"
| "interest_lists ((key, Interests xs) # od) = map_option ((#) (key, xs)) (interest_lists od)"
| "interest_lists ((key, Decoded t) # od) = None"

subsection \<open>Reading back a written file\<close>

text \<open>
  \<^verbatim>\<open>csv.reader\<close> gives back the cells \<^verbatim>\<open>csv.writer\<close> wrote, and raises
  \<^verbatim>\<open>csv.Error\<close> (field larger than field limit) at a cell of more than
  \<^verbatim>\<open>csv.field_size_limit()\<close> characters, 131072 unless the program changes it, which
  \<^verbatim>\<open>project.py\<close> does not. The error leaves the loop of the loader and the loader with
  it. \<open>load_written\<close> is the loader on the path of a file that holds the written rows.
\<close>

definition field_size_limit :: nat where
  "field_size_limit = 131072"

definition csv_reader :: "string list list \<Rightarrow> error + string list list" where
  "csv_reader rows =
     (if list_ex (list_ex (\<lambda>cell. field_size_limit < length cell)) rows
      then Inl CsvError else Inr rows)"

definition load_written ::
  "(string \<Rightarrow> pyvalue option) \<Rightarrow> string list list
     \<Rightarrow> error + (cell \<times> cell, pyvalue) ordered_dict" where
  "load_written json_loads rows =
     (case csv_reader rows of
        Inl e \<Rightarrow> Inl e
      | Inr read \<Rightarrow> load_csv_into_ordereddict json_loads (Some read))"

subsection \<open>json.loads\<close>

text \<open>
  The loader is stated for every \<open>json_loads\<close>. \<open>json_decode\<close> is \<^verbatim>\<open>json.loads\<close> on a
  \<^verbatim>\<open>str\<close>, as the scanner of CPython reads it: one JSON value between optional
  whitespace; \<^verbatim>\<open>null\<close>, \<^verbatim>\<open>true\<close>, \<^verbatim>\<open>false\<close>, \<^verbatim>\<open>NaN\<close>, \<^verbatim>\<open>Infinity\<close> and
  \<^verbatim>\<open>-Infinity\<close>; numbers \<^verbatim>\<open>-?(0|[1-9][0-9]*)(\.[0-9]+)?([eE][-+]?[0-9]+)?\<close>; strings
  with the escapes \<^verbatim>\<open>\" \\ \/ \b \f \n \r \t \uXXXX\<close> and no character below 32; arrays
  and objects with string keys. It answers \<^const>\<open>None\<close> where \<^verbatim>\<open>json.loads\<close> raises
  \<^verbatim>\<open>JSONDecodeError\<close>. Two limits of the interpreter are not modelled: the depth of
  nesting at which it raises \<^verbatim>\<open>RecursionError\<close>, and the 4300 digits beyond which an
  integer raises \<^verbatim>\<open>ValueError\<close>.

  The text is read character by character. The state holds the \<open>scan\<close> (what may come
  next), the stack of the arrays and objects that are open, the strings read as values so
  far (last first), and whether the text can still be a list of strings: one array, not
  nested, of strings with code points below 256.
\<close>

datatype frame = InArray | InObject

datatype scan =
    Value
  | FirstValue
  | FirstKey
  | Key
  | Colon
  | AfterValue
  | InString bool string
  | Escape bool string
  | Unicode bool string "nat list"
  | Literal string
  | NumSign
  | NumZero
  | NumInt
  | NumDot
  | NumFrac
  | NumExp
  | NumExpSign
  | NumExpDigits
  | Failed

type_synonym scanner = "scan \<times> frame list \<times> string list \<times> bool"

definition json_ws :: "char \<Rightarrow> bool" where
  "json_ws c = (c = CHR '' '' \<or> c = CHR 0x09 \<or> c = CHR 0x0A \<or> c = CHR 0x0D)"

definition is_digit :: "char \<Rightarrow> bool" where
  "is_digit c = (48 \<le> (of_char c :: nat) \<and> (of_char c :: nat) \<le> 57)"

definition hexval :: "char \<Rightarrow> nat option" where
  "hexval c =
     (let n = (of_char c :: nat)
      in if 48 \<le> n \<and> n \<le> 57 then Some (n - 48)
         else if 97 \<le> n \<and> n \<le> 102 then Some (n - 87)
         else if 65 \<le> n \<and> n \<le> 70 then Some (n - 55)
         else None)"

definition unescape :: "char \<Rightarrow> char option" where
  "unescape c =
     (if c = CHR 0x22 \<or> c = CHR 0x5C \<or> c = CHR ''/'' then Some c
      else if c = CHR ''b'' then Some (CHR 0x08)
      else if c = CHR ''f'' then Some (CHR 0x0C)
      else if c = CHR ''n'' then Some (CHR 0x0A)
      else if c = CHR ''r'' then Some (CHR 0x0D)
      else if c = CHR ''t'' then Some (CHR 0x09)
      else None)"

text \<open>The first character of a value.\<close>

definition value_start :: "frame list \<Rightarrow> string list \<Rightarrow> bool \<Rightarrow> char \<Rightarrow> scanner" where
  "value_start stack items plain c =
     (if c = CHR 0x22 then (InString False [], stack, items, plain \<and> stack \<noteq> [])
      else if c = CHR ''['' then (FirstValue, InArray # stack, items, plain \<and> stack = [])
      else if c = CHR ''{'' then (FirstKey, InObject # stack, items, False)
      else if c = CHR ''n'' then (Literal ''ull'', stack, items, False)
      else if c = CHR ''t'' then (Literal ''rue'', stack, items, False)
      else if c = CHR ''f'' then (Literal ''alse'', stack, items, False)
      else if c = CHR ''N'' then (Literal ''aN'', stack, items, False)
      else if c = CHR ''I'' then (Literal ''nfinity'', stack, items, False)
      else if c = CHR ''-'' then (NumSign, stack, items, False)
      else if c = CHR ''0'' then (NumZero, stack, items, False)
      else if is_digit c then (NumInt, stack, items, False)
      else (Failed, stack, items, False))"

text \<open>The character after a value: a comma or the end of the array or object that is open.\<close>

definition after_value :: "frame list \<Rightarrow> string list \<Rightarrow> bool \<Rightarrow> char \<Rightarrow> scanner" where
  "after_value stack items plain c =
     (if json_ws c then (AfterValue, stack, items, plain)
      else case stack of
             [] \<Rightarrow> (Failed, stack, items, plain)
           | InArray # rest \<Rightarrow>
               (if c = CHR '','' then (Value, stack, items, plain)
                else if c = CHR '']'' then (AfterValue, rest, items, plain)
                else (Failed, stack, items, plain))
           | InObject # rest \<Rightarrow>
               (if c = CHR '','' then (Key, stack, items, plain)
                else if c = CHR ''}'' then (AfterValue, rest, items, plain)
                else (Failed, stack, items, plain)))"

fun scan_step :: "scanner \<Rightarrow> char \<Rightarrow> scanner" where
  "scan_step (Value, stack, items, plain) c =
     (if json_ws c then (Value, stack, items, plain) else value_start stack items plain c)"
| "scan_step (FirstValue, stack, items, plain) c =
     (if json_ws c then (FirstValue, stack, items, plain)
      else if c = CHR '']'' then (AfterValue, tl stack, items, plain)
      else value_start stack items plain c)"
| "scan_step (FirstKey, stack, items, plain) c =
     (if json_ws c then (FirstKey, stack, items, plain)
      else if c = CHR ''}'' then (AfterValue, tl stack, items, plain)
      else if c = CHR 0x22 then (InString True [], stack, items, plain)
      else (Failed, stack, items, plain))"
| "scan_step (Key, stack, items, plain) c =
     (if json_ws c then (Key, stack, items, plain)
      else if c = CHR 0x22 then (InString True [], stack, items, plain)
      else (Failed, stack, items, plain))"
| "scan_step (Colon, stack, items, plain) c =
     (if json_ws c then (Colon, stack, items, plain)
      else if c = CHR '':'' then (Value, stack, items, plain)
      else (Failed, stack, items, plain))"
| "scan_step (AfterValue, stack, items, plain) c = after_value stack items plain c"
| "scan_step (InString is_key acc, stack, items, plain) c =
     (if c = CHR 0x22
      then (if is_key then (Colon, stack, items, plain)
            else (AfterValue, stack, rev acc # items, plain))
      else if c = CHR 0x5C then (Escape is_key acc, stack, items, plain)
      else if (of_char c :: nat) < 32 then (Failed, stack, items, plain)
      else (InString is_key (c # acc), stack, items, plain))"
| "scan_step (Escape is_key acc, stack, items, plain) c =
     (if c = CHR ''u'' then (Unicode is_key acc [], stack, items, plain)
      else case unescape c of
             Some d \<Rightarrow> (InString is_key (d # acc), stack, items, plain)
           | None \<Rightarrow> (Failed, stack, items, plain))"
| "scan_step (Unicode is_key acc ds, stack, items, plain) c =
     (case hexval c of
        None \<Rightarrow> (Failed, stack, items, plain)
      | Some d \<Rightarrow>
          (if length ds < 3 then (Unicode is_key acc (ds @ [d]), stack, items, plain)
           else let n = foldl (\<lambda>a b. 16 * a + b) 0 (ds @ [d])
                in if n < 256 then (InString is_key (char_of n # acc), stack, items, plain)
                   else (InString is_key acc, stack, items, False)))"
| "scan_step (Literal rest, stack, items, plain) c =
     (case rest of
        [] \<Rightarrow> (Failed, stack, items, plain)
      | d # ds \<Rightarrow>
          (if c \<noteq> d then (Failed, stack, items, plain)
           else if ds = [] then (AfterValue, stack, items, plain)
           else (Literal ds, stack, items, plain)))"
| "scan_step (NumSign, stack, items, plain) c =
     (if c = CHR ''0'' then (NumZero, stack, items, plain)
      else if is_digit c then (NumInt, stack, items, plain)
      else if c = CHR ''I'' then (Literal ''nfinity'', stack, items, plain)
      else (Failed, stack, items, plain))"
| "scan_step (NumZero, stack, items, plain) c =
     (if c = CHR ''.'' then (NumDot, stack, items, plain)
      else if c = CHR ''e'' \<or> c = CHR ''E'' then (NumExp, stack, items, plain)
      else after_value stack items plain c)"
| "scan_step (NumInt, stack, items, plain) c =
     (if is_digit c then (NumInt, stack, items, plain)
      else if c = CHR ''.'' then (NumDot, stack, items, plain)
      else if c = CHR ''e'' \<or> c = CHR ''E'' then (NumExp, stack, items, plain)
      else after_value stack items plain c)"
| "scan_step (NumDot, stack, items, plain) c =
     (if is_digit c then (NumFrac, stack, items, plain) else (Failed, stack, items, plain))"
| "scan_step (NumFrac, stack, items, plain) c =
     (if is_digit c then (NumFrac, stack, items, plain)
      else if c = CHR ''e'' \<or> c = CHR ''E'' then (NumExp, stack, items, plain)
      else after_value stack items plain c)"
| "scan_step (NumExp, stack, items, plain) c =
     (if c = CHR ''+'' \<or> c = CHR ''-'' then (NumExpSign, stack, items, plain)
      else if is_digit c then (NumExpDigits, stack, items, plain)
      else (Failed, stack, items, plain))"
| "scan_step (NumExpSign, stack, items, plain) c =
     (if is_digit c then (NumExpDigits, stack, items, plain) else (Failed, stack, items, plain))"
| "scan_step (NumExpDigits, stack, items, plain) c =
     (if is_digit c then (NumExpDigits, stack, items, plain)
      else after_value stack items plain c)"
| "scan_step (Failed, stack, items, plain) c = (Failed, stack, items, plain)"

text \<open>A text is a value when it ends after one, with nothing open.\<close>

definition value_ended :: "scan \<Rightarrow> bool" where
  "value_ended s =
     (s = AfterValue \<or> s = NumZero \<or> s = NumInt \<or> s = NumFrac \<or> s = NumExpDigits)"

definition json_decode :: "string \<Rightarrow> pyvalue option" where
  "json_decode text =
     (case foldl scan_step (Value, [], [], True) text of
        (s, stack, items, plain) \<Rightarrow>
          if value_ended s \<and> stack = []
          then Some (if plain then Interests (rev items) else Decoded text)
          else None)"

subsection \<open>Persisted ledgers\<close>

text \<open>
  The loop of the loader, on the entries it stores: \<^verbatim>\<open>od[key] = interests\<close> for each in
  turn.
\<close>

fun od_setitems :: "('k, 'v) ordered_dict \<Rightarrow> ('k \<times> 'v) list \<Rightarrow> ('k, 'v) ordered_dict" where
  "od_setitems od [] = od"
| "od_setitems od ((key, v) # items) = od_setitems (od_setitem od key v) items"

text \<open>
  A persisted ledger with the three columns: the header and one row of three cells for
  each entry, here a key and the text of its interests. \<open>loaded_entry\<close> is what the
  loader makes of one such row, and \<open>written_entry\<close> what the writer makes of an entry of
  the ledger.
\<close>

definition csv_file :: "((string \<times> string) \<times> string) list \<Rightarrow> string list list" where
  "csv_file entries =
     CSV_FIELDS # map (\<lambda>((filename, name), text). [filename, name, text]) entries"

definition loaded_entry ::
  "(string \<Rightarrow> pyvalue option) \<Rightarrow> (string \<times> string) \<times> string \<Rightarrow> (cell \<times> cell) \<times> pyvalue" where
  "loaded_entry json_loads entry =
     ((Some (fst (fst entry)), Some (snd (fst entry))),
      (case json_loads (snd entry) of Some v \<Rightarrow> v | None \<Rightarrow> Interests []))"

definition written_entry :: "(cell \<times> cell) \<times> string list \<Rightarrow> (string \<times> string) \<times> string" where
  "written_entry item =
     ((cell_text (fst (fst item)), cell_text (snd (fst item))), json_dumps (snd item))"

text \<open>The elements of a list in the order of their first occurrence, each once.\<close>

definition first_occurrences :: "'a list \<Rightarrow> 'a list" where
  "first_occurrences xs = rev (remdups (rev xs))"

text \<open>
  The words of the specification for a source with duplicate keys: of the rows that share
  a key, the last one is kept.
\<close>

fun keep_last_occurrence :: "('k \<times> 'v) list \<Rightarrow> ('k \<times> 'v) list" where
  "keep_last_occurrence [] = []"
| "keep_last_occurrence (e # es) =
     (if fst e \<in> fst ` set es then keep_last_occurrence es else e # keep_last_occurrence es)"

section \<open>Properties of the OrderedDict operations\<close>

lemma od_setitem_absent: "key \<notin> fst ` set od \<Longrightarrow> od_setitem od key v = od @ [(key, v)]"
  by (induction od) auto

lemma od_delitem_absent: "key \<notin> fst ` set (od_delitem od key)"
  by (auto simp: od_delitem_def)

lemma od_delitem_id: "key \<notin> fst ` set od \<Longrightarrow> od_delitem od key = od"
  unfolding od_delitem_def by (induction od) auto

lemma od_getitem_None: "od_getitem od key = None \<longleftrightarrow> key \<notin> fst ` set od"
  by (simp add: od_getitem_def map_of_eq_None_iff)

lemma set_py_set_union: "set (py_set_union s xs) = set s \<union> set xs"
  unfolding py_set_union_def by (induction xs arbitrary: s) auto

lemma distinct_py_set_union: "distinct s \<Longrightarrow> distinct (py_set_union s xs)"
  unfolding py_set_union_def by (induction xs arbitrary: s) auto

lemma set_py_set: "set (py_set xs) = set xs"
  using set_py_set_union [of "[]" xs] by (simp add: py_set_def py_set_union_def)

lemma distinct_py_set: "distinct (py_set xs)"
  using distinct_py_set_union [of "[]" xs] by (simp add: py_set_def py_set_union_def)

lemma set_py_list: "set (py_list iter_order s) = set s"
  by (simp add: py_list_def)

lemma distinct_py_list: "distinct s \<Longrightarrow> distinct (py_list iter_order s)"
  by (simp add: py_list_def)

text \<open>Every upsert removes the entry of its key, if any, and appends the new one.\<close>

lemma upsert_eq:
  "upsert iter_order od key interests =
     od_delitem od key @ [(key, stored iter_order od key interests)]"
proof (cases "od_getitem od key")
  case None
  then have "key \<notin> fst ` set od" by (simp add: od_getitem_None)
  then show ?thesis
    using None by (simp add: upsert_def stored_def od_setitem_absent od_delitem_id)
next
  case (Some old)
  then show ?thesis
    by (simp add: upsert_def stored_def od_setitem_absent [OF od_delitem_absent])
qed


section \<open>Properties of the upsert\<close>

lemma od_keys_delitem: "od_keys (od_delitem od key) = filter (\<lambda>k. k \<noteq> key) (od_keys od)"
  by (simp add: od_keys_def od_delitem_def filter_map comp_def)

lemma od_keys_upsert:
  "od_keys (upsert iter_order od key interests) = filter (\<lambda>k. k \<noteq> key) (od_keys od) @ [key]"
  using od_keys_delitem [of od key] by (simp add: upsert_eq od_keys_def)

lemma distinct_upsert:
  "distinct (od_keys od) \<Longrightarrow> distinct (od_keys (upsert iter_order od key interests))"
  by (simp add: od_keys_upsert)

lemma length_filter_absent: "key \<notin> set ks \<Longrightarrow> length (filter (\<lambda>k. k \<noteq> key) ks) = length ks"
  by (induction ks) auto

lemma length_filter_distinct:
  "distinct ks \<Longrightarrow> key \<in> set ks \<Longrightarrow> Suc (length (filter (\<lambda>k. k \<noteq> key) ks)) = length ks"
  by (induction ks) (auto simp: length_filter_absent)

lemma length_upsert:
  assumes "distinct (od_keys od)"
  shows "length (upsert iter_order od key interests) =
           (if key \<in> set (od_keys od) then length od else length od + 1)"
proof -
  have "length (upsert iter_order od key interests) = length (od_keys (upsert iter_order od key interests))"
    by (simp add: od_keys_def)
  also have "\<dots> = Suc (length (filter (\<lambda>k. k \<noteq> key) (od_keys od)))"
    by (simp add: od_keys_upsert)
  also have "\<dots> = (if key \<in> set (od_keys od) then length od else length od + 1)"
    using assms length_filter_distinct [of "od_keys od" key] length_filter_absent [of key "od_keys od"]
    by (auto simp: od_keys_def)
  finally show ?thesis .
qed

lemma upsert_frame:
  "filter (\<lambda>item. fst item \<noteq> key) (upsert iter_order od key interests) =
     filter (\<lambda>item. fst item \<noteq> key) od"
  by (simp add: upsert_eq od_delitem_def)

lemma map_of_filter_other:
  "k \<noteq> key \<Longrightarrow> map_of (filter (\<lambda>item. fst item \<noteq> key) od) k = map_of od k"
  by (induction od) auto

lemma map_of_filter_same: "map_of (filter (\<lambda>item. fst item \<noteq> key) od) key = None"
  by (induction od) auto

lemma od_getitem_upsert_other:
  "k \<noteq> key \<Longrightarrow> od_getitem (upsert iter_order od key interests) k = od_getitem od k"
  by (simp add: upsert_eq od_getitem_def od_delitem_def map_add_def map_of_filter_other
      split: option.splits)

lemma od_getitem_upsert_same:
  "od_getitem (upsert iter_order od key interests) key = Some (stored iter_order od key interests)"
  by (simp add: upsert_eq od_getitem_def od_delitem_def map_add_def map_of_filter_same)

lemma set_stored:
  "set (stored iter_order od key interests) =
     (case od_getitem od key of None \<Rightarrow> set interests | Some old \<Rightarrow> set old \<union> set interests)"
  by (simp add: stored_def set_py_list set_py_set_union set_py_set split: option.splits)


lemma upserts_append:
  "upserts iter_order od (xs @ ys) = upserts iter_order (upserts iter_order od xs) ys"
  by (induction xs arbitrary: od) auto

lemma distinct_upserts:
  "distinct (od_keys od) \<Longrightarrow> distinct (od_keys (upserts iter_order od facts))"
  by (induction facts arbitrary: od) (auto simp: distinct_upsert)

lemma od_getitem_upserts_other:
  "k \<notin> fst ` set facts \<Longrightarrow> od_getitem (upserts iter_order od facts) k = od_getitem od k"
  by (induction facts arbitrary: od) (auto simp: od_getitem_upsert_other)

lemma set_od_keys_upsert: "set (od_keys (upsert iter_order od key interests)) = insert key (set (od_keys od))"
  by (auto simp: od_keys_upsert)

lemma set_od_keys_upserts:
  "set (od_keys (upserts iter_order od facts)) = set (od_keys od) \<union> fst ` set facts"
  by (induction facts arbitrary: od) (force simp: set_od_keys_upsert)+

lemma filter_keys_upsert:
  "\<not> P key \<Longrightarrow> filter P (od_keys (upsert iter_order od key interests)) = filter P (od_keys od)"
proof -
  assume "\<not> P key"
  then have "filter P (filter (\<lambda>k. k \<noteq> key) (od_keys od)) = filter P (od_keys od)"
    by (induction od) (auto simp: od_keys_def)
  with \<open>\<not> P key\<close> show ?thesis by (simp add: od_keys_upsert)
qed

lemma filter_keys_upserts:
  "\<forall>k \<in> fst ` set facts. \<not> P k \<Longrightarrow>
     filter P (od_keys (upserts iter_order od facts)) = filter P (od_keys od)"
  by (induction facts arbitrary: od) (auto simp: filter_keys_upsert)

lemma last_upsert:
  "upsert iter_order od key interests \<noteq> [] \<and> fst (last (upsert iter_order od key interests)) = key"
  by (simp add: upsert_eq)

lemma last_upserts_snoc:
  "upserts iter_order od (facts @ [(key, interests)]) \<noteq> [] \<and>
   fst (last (upserts iter_order od (facts @ [(key, interests)]))) = key"
  by (simp add: upserts_append last_upsert)

lemma filter_pair_distinct:
  assumes "distinct ks" "J \<in> set ks" "J \<noteq> K"
  shows "filter (\<lambda>k. k = J \<or> k = K) (filter (\<lambda>k. k \<noteq> K) ks) = [J]"
  using assms by (induction ks) (auto simp: filter_empty_conv)

lemma before_of_filter:
  assumes "filter P ks = [J, K]"
  shows "\<exists>l1 l2 l3. ks = l1 @ J # l2 @ K # l3"
proof -
  from assms obtain us vs where ks: "ks = us @ J # vs" and vs: "[K] = filter P vs"
    by (auto simp: filter_eq_Cons_iff)
  from vs [symmetric] obtain ws zs where "vs = ws @ K # zs"
    by (auto simp: filter_eq_Cons_iff)
  with ks show ?thesis by blast
qed

text \<open>
  Claim C1. On a ledger whose keys are distinct, after \<open>upsert key interests\<close> the entry
  of \<open>key\<close> is the last one, the keys are still distinct, and the ledger is one entry
  longer when \<open>key\<close> was absent and as long as before when it was present (so it grows
  by at most one).
\<close>
theorem upsert_postcondition:
  assumes "distinct (od_keys od)"
  shows "upsert iter_order od key interests \<noteq> [] \<and>
         fst (last (upsert iter_order od key interests)) = key \<and>
         distinct (od_keys (upsert iter_order od key interests)) \<and>
         length (upsert iter_order od key interests) =
           (if key \<in> set (od_keys od) then length od else length od + 1) \<and>
         length (upsert iter_order od key interests) \<le> length od + 1"
  using assms last_upsert [of iter_order od key interests]
    distinct_upsert [of od iter_order key interests]
    length_upsert [of od iter_order key interests]
  by simp

theorem upsert_postcondition_witness:
  "distinct (od_keys [((''a.txt'', ''Alice''), [''chess'']), ((''b.txt'', ''Bob''), [''golf''])]) \<and>
   fst (last (upsert id [((''a.txt'', ''Alice''), [''chess'']), ((''b.txt'', ''Bob''), [''golf''])]
      (''a.txt'', ''Alice'') [''reading''])) = (''a.txt'', ''Alice'') \<and>
   distinct (od_keys (upsert id [((''a.txt'', ''Alice''), [''chess'']), ((''b.txt'', ''Bob''), [''golf''])]
      (''a.txt'', ''Alice'') [''reading''])) \<and>
   length (upsert id [((''a.txt'', ''Alice''), [''chess'']), ((''b.txt'', ''Bob''), [''golf''])]
      (''a.txt'', ''Alice'') [''reading'']) = 2 \<and>
   length (upsert id [((''a.txt'', ''Alice''), [''chess'']), ((''b.txt'', ''Bob''), [''golf''])]
      (''c.txt'', ''Carol'') []) = 3"
proof -
  have d: "distinct (od_keys [((''a.txt'', ''Alice''), [''chess'']), ((''b.txt'', ''Bob''), [''golf''])])"
    by (simp add: od_keys_def)
  show ?thesis
    using d upsert_postcondition [OF d, of id "(''a.txt'', ''Alice'')" "[''reading'']"]
      upsert_postcondition [OF d, of id "(''c.txt'', ''Carol'')" "[]"]
    by (simp add: od_keys_def)
qed

text \<open>
  Claim C10. An upsert of \<open>key\<close> leaves the entries of all other keys as they were, with
  their interests and in their order: without the entry of \<open>key\<close> the ledger is the
  same before and after.
\<close>
theorem upsert_frame_others:
  "filter (\<lambda>item. fst item \<noteq> key) (upsert iter_order od key interests) =
     filter (\<lambda>item. fst item \<noteq> key) od"
  by (rule upsert_frame)

text \<open>
  Claim C9 (scenario B). From the ledger with Alice and \<open>{chess}\<close> at position 0 and Bob
  and \<open>{golf}\<close> at position 1, the upsert of Alice with \<open>{reading}\<close> gives the ledger with
  Bob at position 0 and Alice, with \<open>{chess, reading}\<close>, at position 1, whatever order the
  merged set is listed in.
\<close>
theorem scenario_b:
  "od_keys (upsert iter_order
      [((''a.txt'', ''Alice''), [''chess'']), ((''b.txt'', ''Bob''), [''golf''])]
      (''a.txt'', ''Alice'') [''reading'']) = [(''b.txt'', ''Bob''), (''a.txt'', ''Alice'')] \<and>
   map (\<lambda>item. set (snd item)) (upsert iter_order
      [((''a.txt'', ''Alice''), [''chess'']), ((''b.txt'', ''Bob''), [''golf''])]
      (''a.txt'', ''Alice'') [''reading'']) = [{''golf''}, {''chess'', ''reading''}]"
  by (simp add: upsert_eq od_keys_def od_delitem_def set_stored od_getitem_def insert_commute)

text \<open>
  Claim C8 says that the stored interests never hold an element twice, also after the
  first insertion of a key. The branch for a new key stores the incoming list as it is:
  inserting \<open>[chess, chess]\<close> under a new key stores \<open>[chess, chess]\<close>. Only the branch
  for a key that is present removes duplicates (\<open>distinct_stored_update\<close>).
\<close>
theorem first_insert_keeps_duplicates:
  "upsert iter_order [] key [''chess'', ''chess''] = [(key, [''chess'', ''chess''])] \<and>
   \<not> distinct (snd (last (upsert iter_order [] key [''chess'', ''chess''])))"
  by (simp add: upsert_def od_getitem_def)

lemma distinct_stored_update:
  "od_getitem od key = Some old \<Longrightarrow> distinct (stored iter_order od key interests)"
  by (simp add: stored_def distinct_py_list distinct_py_set_union distinct_py_set)

lemma main_people_one:
  "main_people iter_order base od [\<lparr>get_name = Some n, get_interests = Some i\<rparr>] =
     upsert iter_order od (Some base, Some (strip n)) i"
  by simp

lemma strip_example: "strip ''  Alice '' = ''Alice''"
  by (simp add: strip_def py_isspace_def)

lemma test_main_skips_blank_name:
  "strip n = [] \<Longrightarrow> test_main_person conn \<lparr>get_name = Some n, get_interests = i\<rparr> = conn"
  by (simp add: test_main_person_def)

text \<open>
  Claim C7 says that the name is trimmed and that a person whose trimmed name is empty is
  skipped. The loop of \<^verbatim>\<open>main\<close> trims the name (\<open>main_people_one\<close>) and upserts it
  without looking at it: from the empty ledger, a person named with two blanks in
  \<^verbatim>\<open>a.txt\<close> becomes an entry under the empty name, and so does a person without a
  name. \<^verbatim>\<open>test.py\<close> skips both (\<open>test_main_skips_blank_name\<close>).
\<close>
theorem blank_name_is_upserted:
  "main_people iter_order ''a.txt'' [] [\<lparr>get_name = Some ''  '', get_interests = Some [''chess'']\<rparr>] =
     [((Some ''a.txt'', Some ''''), [''chess''])] \<and>
   main_people iter_order ''a.txt'' [] [\<lparr>get_name = None, get_interests = Some [''chess'']\<rparr>] =
     [((Some ''a.txt'', Some ''''), [''chess''])]"
  by (simp add: upsert_def od_getitem_def strip_def py_isspace_def)

lemma last_upserts_take:
  assumes "n < length facts"
  shows "upserts iter_order od (take (Suc n) facts) \<noteq> [] \<and>
         fst (last (upserts iter_order od (take (Suc n) facts))) = fst (facts ! n)"
proof -
  obtain key interests where f: "facts ! n = (key, interests)" by (cases "facts ! n")
  have "take (Suc n) facts = take n facts @ [(key, interests)]"
    using assms f by (simp add: take_Suc_conv_app_nth)
  then show ?thesis
    using last_upserts_snoc [of iter_order od "take n facts" key interests] f by simp
qed

lemma keys_after_last_upsert:
  assumes d: "distinct (od_keys od)" and ne: "J \<noteq> K"
    and J: "J \<in> set (od_keys od) \<union> fst ` set before"
    and Ja: "J \<notin> fst ` set after" and Ka: "K \<notin> fst ` set after"
  shows "filter (\<lambda>k. k = J \<or> k = K)
           (od_keys (upserts iter_order od (before @ (K, interests) # after))) = [J, K]"
proof -
  let ?P = "\<lambda>k. k = J \<or> k = K"
  let ?N = "upserts iter_order od before"
  let ?M = "upsert iter_order ?N K interests"
  have final: "upserts iter_order od (before @ (K, interests) # after) = upserts iter_order ?M after"
    by (simp add: upserts_append)
  have dN: "distinct (od_keys ?N)" using d by (rule distinct_upserts)
  have JN: "J \<in> set (od_keys ?N)" using J by (simp add: set_od_keys_upserts)
  have "\<forall>k \<in> fst ` set after. \<not> ?P k" using Ja Ka by auto
  then have "filter ?P (od_keys (upserts iter_order ?M after)) = filter ?P (od_keys ?M)"
    by (rule filter_keys_upserts)
  also have "\<dots> = filter ?P (filter (\<lambda>k. k \<noteq> K) (od_keys ?N)) @ [K]"
    by (simp add: od_keys_upsert)
  also have "\<dots> = [J, K]"
    using filter_pair_distinct [OF dN JN ne] by simp
  finally show ?thesis by (simp only: final)
qed

text \<open>
  Claim C3. In a run of upserts from a ledger with distinct keys, after every upsert the
  key just upserted is that of the last entry; and when \<open>K\<close> is upserted for the last time
  after \<open>J\<close> was (\<open>J\<close> is in the ledger at the start or is upserted before, and neither
  \<open>J\<close> nor \<open>K\<close> is upserted afterwards), \<open>K\<close> stands after \<open>J\<close> in the final ledger,
  whose keys are distinct.
\<close>
theorem recency_ordering:
  assumes "distinct (od_keys od)" and "J \<noteq> K"
    and "J \<in> set (od_keys od) \<union> fst ` set before"
    and "J \<notin> fst ` set after" and "K \<notin> fst ` set after"
  shows "(\<forall>n < length facts.
            upserts iter_order od (take (Suc n) facts) \<noteq> [] \<and>
            fst (last (upserts iter_order od (take (Suc n) facts))) = fst (facts ! n)) \<and>
         distinct (od_keys (upserts iter_order od (before @ (K, interests) # after))) \<and>
         (\<exists>l1 l2 l3.
            od_keys (upserts iter_order od (before @ (K, interests) # after)) = l1 @ J # l2 @ K # l3)"
proof (intro conjI allI impI)
  fix n assume "n < length facts"
  then show "upserts iter_order od (take (Suc n) facts) \<noteq> []"
    and "fst (last (upserts iter_order od (take (Suc n) facts))) = fst (facts ! n)"
    using last_upserts_take [of n facts iter_order od] by simp_all
next
  show "distinct (od_keys (upserts iter_order od (before @ (K, interests) # after)))"
    using assms(1) by (rule distinct_upserts)
next
  show "\<exists>l1 l2 l3.
          od_keys (upserts iter_order od (before @ (K, interests) # after)) = l1 @ J # l2 @ K # l3"
    using keys_after_last_upsert [OF assms] by (rule before_of_filter)
qed

theorem recency_ordering_witness:
  "od_keys (upserts id [((''a.txt'', ''Alice''), [''chess''])]
     ([((''b.txt'', ''Bob''), [''golf''])] @ ((''a.txt'', ''Alice''), [''reading'']) # [])) =
     [] @ (''b.txt'', ''Bob'') # [] @ (''a.txt'', ''Alice'') # [] \<and>
   fst (last (upserts id [((''a.txt'', ''Alice''), [''chess''])]
     (take (Suc 0) [((''b.txt'', ''Bob''), [''golf'']), ((''a.txt'', ''Alice''), [''reading''])]))) =
     (''b.txt'', ''Bob'') \<and>
   distinct (od_keys (upserts id [((''a.txt'', ''Alice''), [''chess''])]
     ([((''b.txt'', ''Bob''), [''golf''])] @ ((''a.txt'', ''Alice''), [''reading'']) # [])))"
proof -
  let ?od = "[((''a.txt'', ''Alice''), [''chess''])]"
  let ?J = "(''b.txt'', ''Bob'')" and ?K = "(''a.txt'', ''Alice'')"
  have h: "distinct (od_keys ?od)" "?J \<noteq> ?K"
    "?J \<in> set (od_keys ?od) \<union> fst ` set [(?J, [''golf''])]"
    "?J \<notin> fst ` set []" "?K \<notin> fst ` set []"
    by (simp_all add: od_keys_def)
  note r = recency_ordering [OF h, of "[(?J, [''golf'']), (?K, [''reading''])]" id "[''reading'']"]
  have "fst (last (upserts id ?od (take (Suc 0) [(?J, [''golf'']), (?K, [''reading''])]))) = ?J"
    using r [THEN conjunct1, rule_format, of 0] by simp
  moreover have "distinct (od_keys (upserts id ?od ([(?J, [''golf''])] @ (?K, [''reading'']) # [])))"
    using r [THEN conjunct2, THEN conjunct1] by simp
  moreover have "od_keys (upserts id ?od ([(?J, [''golf''])] @ (?K, [''reading'']) # [])) =
      [] @ ?J # [] @ ?K # []"
    by (simp add: upsert_eq od_keys_def od_delitem_def)
  ultimately show ?thesis by simp
qed

text \<open>An upsert adds the incoming interests to those the key has, if it has any.\<close>

lemma od_interests_upsert:
  "od_interests (upsert iter_order od K B) K =
     Some ((case od_interests od K of None \<Rightarrow> {} | Some S \<Rightarrow> S) \<union> set B)"
  by (simp add: od_interests_def od_getitem_upsert_same set_stored split: option.splits)

lemma od_interests_twice:
  assumes "K \<notin> set (od_keys od)" and "K \<notin> fst ` set others"
  shows "od_interests (upsert iter_order (upserts iter_order (upsert iter_order od K A) others) K B) K
           = Some (set A \<union> set B)"
proof -
  let ?od1 = "upsert iter_order od K A"
  let ?od2 = "upserts iter_order ?od1 others"
  have "od_getitem od K = None"
    using assms(1) by (simp add: od_getitem_None od_keys_def)
  then have "od_getitem ?od1 K = Some A"
    by (simp add: od_getitem_upsert_same stored_def)
  then have "od_getitem ?od2 K = Some A"
    using assms(2) by (simp add: od_getitem_upserts_other)
  then show ?thesis
    by (simp add: od_interests_def od_getitem_upsert_same set_stored)
qed

text \<open>
  Claim C2. A key \<open>K\<close> that is not in the ledger is upserted with \<open>A\<close>, then other keys
  are upserted, then \<open>K\<close> is upserted with \<open>B\<close>: the interests stored for \<open>K\<close> are, as a
  set, the union of \<open>A\<close> and \<open>B\<close>. Lists \<open>A'\<close> and \<open>B'\<close> with the same elements in
  another order, and another iteration order of the sets, give the same set.
\<close>
theorem union_accumulation:
  assumes "K \<notin> set (od_keys od)" and "K \<notin> fst ` set others"
    and "set A' = set A" and "set B' = set B"
  shows "od_interests (upsert iter_order (upserts iter_order (upsert iter_order od K A) others) K B) K
           = Some (set A \<union> set B) \<and>
         od_interests (upsert iter_order' (upserts iter_order' (upsert iter_order' od K A') others) K B') K
           = Some (set A \<union> set B)"
  using od_interests_twice [OF assms(1,2), of iter_order A B]
    od_interests_twice [OF assms(1,2), of iter_order' A' B'] assms(3,4)
  by simp

theorem union_accumulation_witness:
  "od_interests (upsert id (upserts id (upsert id [] (''a.txt'', ''Alice'') [''chess'', ''golf''])
       [((''b.txt'', ''Bob''), [''golf''])]) (''a.txt'', ''Alice'') [''reading'', ''chess'']) (''a.txt'', ''Alice'')
     = Some {''chess'', ''golf'', ''reading''} \<and>
   od_interests (upsert rev (upserts rev (upsert rev [] (''a.txt'', ''Alice'') [''golf'', ''chess''])
       [((''b.txt'', ''Bob''), [''golf''])]) (''a.txt'', ''Alice'') [''chess'', ''reading'']) (''a.txt'', ''Alice'')
     = Some {''chess'', ''golf'', ''reading''}"
proof -
  let ?K = "(''a.txt'', ''Alice'')"
  have h: "?K \<notin> set (od_keys [])" "?K \<notin> fst ` set [((''b.txt'', ''Bob''), [''golf''])]"
    "set [''golf'', ''chess''] = set [''chess'', ''golf'']"
    "set [''chess'', ''reading''] = set [''reading'', ''chess'']"
    by (auto simp: od_keys_def)
  show ?thesis
    using union_accumulation [OF h, of id rev] by (simp add: insert_commute Un_commute)
qed

section \<open>Properties of the loader and the writer\<close>

lemma py_set_first_occurrences: "foldl py_set_add [] xs = first_occurrences xs"
  by (induction xs rule: rev_induct) (auto simp: first_occurrences_def)

lemma od_keys_setitem: "od_keys (od_setitem od key v) = py_set_add (od_keys od) key"
  by (induction od) (force simp: od_keys_def)+

lemma od_keys_setitems:
  "od_keys (od_setitems od items) = py_set_union (od_keys od) (map fst items)"
  by (induction items arbitrary: od) (auto simp: od_keys_setitem py_set_union_def)

lemma od_getitem_setitem:
  "od_getitem (od_setitem od key v) k = (if k = key then Some v else od_getitem od k)"
  by (induction od) (auto simp: od_getitem_def)

lemma od_getitem_setitems_absent:
  "k \<notin> fst ` set items \<Longrightarrow> od_getitem (od_setitems od items) k = od_getitem od k"
  by (induction items arbitrary: od) (auto simp: od_getitem_setitem)

lemma od_getitem_setitems_last:
  "k \<notin> fst ` set after \<Longrightarrow>
     od_getitem (od_setitems od (before @ (k, v) # after)) k = Some v"
  by (induction before arbitrary: od)
     (auto simp: od_getitem_setitems_absent od_getitem_setitem)

lemma od_setitems_distinct:
  "distinct (map fst items) \<Longrightarrow> fst ` set od \<inter> fst ` set items = {} \<Longrightarrow>
     od_setitems od items = od @ items"
proof (induction items arbitrary: od)
  case Nil
  then show ?case by simp
next
  case (Cons item items)
  obtain key v where item: "item = (key, v)" by (cases item)
  have absent: "key \<notin> fst ` set od" using Cons.prems(2) item by auto
  have "od_setitems (od @ [(key, v)]) items = (od @ [(key, v)]) @ items"
    using Cons.prems item by (intro Cons.IH) auto
  then show ?case using absent item by (simp add: od_setitem_absent)
qed

lemma row_getitem_csv:
  "row_getitem (DictReader_row CSV_FIELDS [filename, name, text]) ''filename'' = Inr (Some filename)"
  "row_getitem (DictReader_row CSV_FIELDS [filename, name, text]) ''name'' = Inr (Some name)"
  "row_getitem (DictReader_row CSV_FIELDS [filename, name, text]) ''interests'' = Inr (Some text)"
  by (simp_all add: row_getitem_def DictReader_row_def CSV_FIELDS_def)

lemma load_rows_csv:
  "load_rows json_loads CSV_FIELDS od
     (map (\<lambda>((filename, name), text). [filename, name, text]) entries) =
   Inr (od_setitems od (map (loaded_entry json_loads) entries))"
proof (induction entries arbitrary: od)
  case Nil
  then show ?case by simp
next
  case (Cons entry entries)
  obtain filename name t where e: "entry = ((filename, name), t)"
    by (cases entry) auto
  show ?case
    by (simp add: e row_getitem_csv row_interests_def loaded_entry_def Cons.IH)
qed

lemma load_csv_file:
  "load_csv_into_ordereddict json_loads (Some (csv_file entries)) =
     Inr (od_setitems [] (map (loaded_entry json_loads) entries))"
proof -
  have "filter (\<lambda>r. r \<noteq> []) (map (\<lambda>((filename, name), text). [filename, name, text]) entries)
      = map (\<lambda>((filename, name), text). [filename, name, text]) entries"
    by (induction entries) auto
  then show ?thesis
    by (simp add: load_csv_into_ordereddict_def csv_file_def load_rows_csv)
qed

lemma inj_loaded_key:
  "distinct (map fst entries) \<Longrightarrow> distinct (map fst (map (loaded_entry json_loads) entries))"
proof -
  assume d: "distinct (map fst entries)"
  have "map fst (map (loaded_entry json_loads) entries) =
      map (\<lambda>k. (Some (fst k), Some (snd k))) (map fst entries)"
    by (simp add: loaded_entry_def)
  moreover have "inj (\<lambda>k :: string \<times> string. (Some (fst k), Some (snd k)))"
    by (auto simp: inj_on_def prod_eq_iff)
  ultimately show ?thesis
    using d by (simp only: distinct_map) (auto intro: inj_on_subset)
qed

lemma load_csv_file_distinct:
  "distinct (map fst entries) \<Longrightarrow>
     load_csv_into_ordereddict json_loads (Some (csv_file entries)) =
       Inr (map (loaded_entry json_loads) entries)"
proof -
  assume "distinct (map fst entries)"
  then have "distinct (map fst (map (loaded_entry json_loads) entries))"
    by (rule inj_loaded_key)
  then have "od_setitems [] (map (loaded_entry json_loads) entries) =
      [] @ map (loaded_entry json_loads) entries"
    by (rule od_setitems_distinct) simp
  then show ?thesis by (simp add: load_csv_file)
qed





section \<open>json.loads reads what json.dumps writes\<close>

lemma hexval_hexdigit: "k < 16 \<Longrightarrow> hexval (hexdigit k) = Some k"
proof -
  assume "k < 16"
  then have "k = 0 \<or> k = 1 \<or> k = 2 \<or> k = 3 \<or> k = 4 \<or> k = 5 \<or> k = 6 \<or> k = 7 \<or>
      k = 8 \<or> k = 9 \<or> k = 10 \<or> k = 11 \<or> k = 12 \<or> k = 13 \<or> k = 14 \<or> k = 15"
    by arith
  then show ?thesis
    by (elim disjE) (simp_all add: hexdigit_def hexval_def)
qed

lemma scan_unicode:
  assumes "(of_char c :: nat) < 32"
  shows "foldl scan_step (InString k acc, stack, items, plain)
           [CHR 0x5C, CHR ''u'', CHR ''0'', CHR ''0'',
            hexdigit (of_char c div 16), hexdigit (of_char c mod 16)] =
         (InString k (c # acc), stack, items, plain)"
proof -
  let ?n = "of_char c :: nat"
  have hi: "hexval (hexdigit (?n div 16)) = Some (?n div 16)"
    using assms by (intro hexval_hexdigit) simp
  have lo: "hexval (hexdigit (?n mod 16)) = Some (?n mod 16)"
    by (intro hexval_hexdigit) simp
  have zero: "hexval (CHR ''0'') = Some 0"
    by (simp add: hexval_def)
  have n: "16 * (?n div 16) + ?n mod 16 = ?n" by simp
  have "?n < 256" using assms by simp
  then show ?thesis
    by (simp add: hi lo zero n)
qed

lemma scan_escape:
  "foldl scan_step (InString k acc, stack, items, plain) (json_escape c) =
     (InString k (c # acc), stack, items, plain)"
proof (cases "(of_char c :: nat) < 32")
  case True
  then show ?thesis
    using scan_unicode [OF True, of k acc stack items plain]
    by (simp add: json_escape_def unescape_def)
next
  case False
  then show ?thesis
    by (simp add: json_escape_def unescape_def)
qed

lemma scan_escapes:
  "foldl scan_step (InString k acc, stack, items, plain) (concat (map json_escape s)) =
     (InString k (rev s @ acc), stack, items, plain)"
  by (induction s arbitrary: acc) (simp_all add: scan_escape)

lemma scan_basestring_first:
  "foldl scan_step (FirstValue, [InArray], items, True) (py_encode_basestring s) =
     (AfterValue, [InArray], s # items, True)"
  by (simp add: py_encode_basestring_def scan_escapes json_ws_def value_start_def)

lemma scan_basestring_next:
  "foldl scan_step (Value, [InArray], items, True) (py_encode_basestring s) =
     (AfterValue, [InArray], s # items, True)"
  by (simp add: py_encode_basestring_def scan_escapes json_ws_def value_start_def)

lemma scan_rest:
  "foldl scan_step (Value, [InArray], items, True)
       (str_join '', '' (map py_encode_basestring (x # xs))) =
     (AfterValue, [InArray], rev (x # xs) @ items, True)"
proof (induction xs arbitrary: x items)
  case Nil
  then show ?case by (simp add: scan_basestring_next)
next
  case (Cons y ys)
  have "foldl scan_step (Value, [InArray], items, True)
          (str_join '', '' (map py_encode_basestring (x # y # ys))) =
        foldl scan_step (AfterValue, [InArray], x # items, True)
          ('', '' @ str_join '', '' (map py_encode_basestring (y # ys)))"
    by (simp add: scan_basestring_next)
  also have "\<dots> = foldl scan_step (Value, [InArray], x # items, True)
          (str_join '', '' (map py_encode_basestring (y # ys)))"
    by (simp add: json_ws_def after_value_def)
  also have "\<dots> = (AfterValue, [InArray], rev (y # ys) @ x # items, True)"
    by (rule Cons.IH)
  finally show ?case by simp
qed

lemma scan_list:
  "foldl scan_step (FirstValue, [InArray], [], True)
       (str_join '', '' (map py_encode_basestring (x # xs))) =
     (AfterValue, [InArray], rev (x # xs), True)"
proof (cases xs)
  case Nil
  then show ?thesis by (simp add: scan_basestring_first)
next
  case (Cons y ys)
  have "foldl scan_step (FirstValue, [InArray], [], True)
          (str_join '', '' (map py_encode_basestring (x # y # ys))) =
        foldl scan_step (AfterValue, [InArray], [x], True)
          ('', '' @ str_join '', '' (map py_encode_basestring (y # ys)))"
    by (simp add: scan_basestring_first)
  also have "\<dots> = foldl scan_step (Value, [InArray], [x], True)
          (str_join '', '' (map py_encode_basestring (y # ys)))"
    by (simp add: json_ws_def after_value_def)
  also have "\<dots> = (AfterValue, [InArray], rev (y # ys) @ [x], True)"
    by (rule scan_rest)
  finally show ?thesis using Cons by simp
qed

lemma json_decode_json_dumps: "json_decode (json_dumps xs) = Some (Interests xs)"
proof (cases xs)
  case Nil
  then show ?thesis
    by (simp add: json_decode_def json_dumps_def json_ws_def value_start_def value_ended_def)
next
  case (Cons y ys)
  have "foldl scan_step (Value, [], [], True) (json_dumps (y # ys)) =
      foldl scan_step (FirstValue, [InArray], [], True)
        (str_join '', '' (map py_encode_basestring (y # ys)) @ '']'')"
    by (simp add: json_dumps_def json_ws_def value_start_def)
  also have "\<dots> = foldl scan_step (AfterValue, [InArray], rev (y # ys), True) '']''"
    by (simp only: foldl_append scan_list)
  also have "\<dots> = (AfterValue, [], rev (y # ys), True)"
    by (simp add: json_ws_def after_value_def)
  finally show ?thesis
    using Cons by (simp add: json_decode_def value_ended_def)
qed

text \<open>Different lists are written differently: the order of the stored list shows.\<close>

lemma json_dumps_inj: "json_dumps xs = json_dumps ys \<Longrightarrow> xs = ys"
proof -
  assume eq: "json_dumps xs = json_dumps ys"
  have "Some (Interests xs) = json_decode (json_dumps xs)"
    by (simp only: json_decode_json_dumps)
  also have "\<dots> = json_decode (json_dumps ys)"
    by (simp only: eq)
  also have "\<dots> = Some (Interests ys)"
    by (rule json_decode_json_dumps)
  finally show "xs = ys" by simp
qed



section \<open>Writing, loading and writing again\<close>

lemma write_as_csv_file: "write_ordereddict_to_csv od = csv_file (map written_entry od)"
  by (simp add: write_ordereddict_to_csv_def csv_file_def written_entry_def case_prod_beta)

lemma loaded_written_entry:
  assumes "fst (fst item) \<noteq> None" and "snd (fst item) \<noteq> None"
  shows "loaded_entry json_decode (written_entry item) = (fst item, Interests (snd item))"
  using assms
  by (cases item)
     (auto simp: loaded_entry_def written_entry_def cell_text_def json_decode_json_dumps)

lemma cell_text_inj: "c \<noteq> None \<Longrightarrow> d \<noteq> None \<Longrightarrow> cell_text c = cell_text d \<longleftrightarrow> c = d"
  by (cases c; cases d) (auto simp: cell_text_def)

lemma distinct_written_keys:
  assumes "distinct (od_keys od)"
    and "\<forall>item \<in> set od. fst (fst item) \<noteq> None \<and> snd (fst item) \<noteq> None"
  shows "distinct (map fst (map written_entry od))"
proof -
  have "inj_on (\<lambda>item. fst (written_entry item)) (set od)"
  proof (rule inj_onI)
    fix a b assume a: "a \<in> set od" and b: "b \<in> set od"
      and eq: "fst (written_entry a) = fst (written_entry b)"
    from eq have "cell_text (fst (fst a)) = cell_text (fst (fst b))"
      and "cell_text (snd (fst a)) = cell_text (snd (fst b))"
      by (simp_all add: written_entry_def)
    moreover from a b assms(2) have "fst (fst a) \<noteq> None" "fst (fst b) \<noteq> None"
      "snd (fst a) \<noteq> None" "snd (fst b) \<noteq> None" by auto
    ultimately have "fst a = fst b"
      by (simp add: prod_eq_iff cell_text_inj)
    moreover have "inj_on fst (set od)"
      using assms(1) by (simp add: od_keys_def distinct_map)
    ultimately show "a = b" using a b by (auto dest: inj_onD)
  qed
  moreover have "distinct od"
    using assms(1) by (simp add: od_keys_def distinct_map)
  ultimately show ?thesis by (simp add: distinct_map comp_def)
qed

lemma interest_lists_Interests:
  "interest_lists (map (\<lambda>item. (fst item, Interests (snd item))) od) = Some od"
  by (induction od) auto

lemma csv_reader_within_limit:
  "\<forall>row \<in> set rows. \<forall>cell \<in> set row. length cell \<le> field_size_limit \<Longrightarrow>
     csv_reader rows = Inr rows"
  by (auto simp: csv_reader_def list_ex_iff not_less [symmetric])

lemma csv_reader_beyond_limit:
  "row \<in> set rows \<Longrightarrow> cell \<in> set row \<Longrightarrow> field_size_limit < length cell \<Longrightarrow>
     csv_reader rows = Inl CsvError"
  by (auto simp: csv_reader_def list_ex_iff)

lemma length_json_dumps_one: "length (json_dumps [replicate n (CHR ''a'')]) = n + 4"
proof -
  have "concat (map json_escape (replicate n (CHR ''a''))) = replicate n (CHR ''a'')"
    by (induction n) (simp_all add: json_escape_def)
  then show ?thesis
    by (simp add: json_dumps_def py_encode_basestring_def)
qed

lemma load_written_beyond_limit:
  assumes "field_size_limit < n"
  shows "load_written json_loads
           (write_ordereddict_to_csv [(key, [replicate n (CHR ''a'')])]) = Inl CsvError"
proof -
  obtain fn name where key: "key = (fn, name)" by (cases key)
  let ?cell = "json_dumps [replicate n (CHR ''a'')]"
  let ?row = "[cell_text fn, cell_text name, ?cell]"
  have "csv_reader (write_ordereddict_to_csv [(key, [replicate n (CHR ''a'')])]) = Inl CsvError"
  proof (rule csv_reader_beyond_limit)
    show "?row \<in> set (write_ordereddict_to_csv [(key, [replicate n (CHR ''a'')])])"
      by (simp add: write_ordereddict_to_csv_def key)
    show "?cell \<in> set ?row" by simp
    show "field_size_limit < length ?cell"
      using assms by (simp add: length_json_dumps_one)
  qed
  then show ?thesis by (simp add: load_written_def)
qed

section \<open>The claims about the loader and the writer\<close>

text \<open>
  Claim C4, amended. The writer writes each stored list of interests with
  \<^verbatim>\<open>json.dumps\<close> in its stored order: the text determines the list and
  \<^verbatim>\<open>json.loads\<close> gives it back. For a ledger with distinct keys, all of them pairs of
  strings, whose written cells have at most 131072 characters each, reading the written
  file back and loading it gives the ledger again, entry by entry in the same order, and
  writing that gives the same rows.
  The claim as stated encodes the set of interests (sorted, for instance) and holds for
  every ledger. The writer does not sort: the same upsert under two iteration orders of
  the merged set stores the same set and is written differently. And the reader refuses a
  written cell of more than 131072 characters.
\<close>
theorem save_load_save:
  assumes "distinct (od_keys od)"
    and "\<forall>item \<in> set od. fst (fst item) \<noteq> None \<and> snd (fst item) \<noteq> None"
    and "\<forall>row \<in> set (write_ordereddict_to_csv od). \<forall>cell \<in> set row. length cell \<le> field_size_limit"
  shows "(\<forall>xs ys. json_dumps xs = json_dumps ys \<longrightarrow> xs = ys) \<and>
         (\<forall>item \<in> set od. json_decode (json_dumps (snd item)) = Some (Interests (snd item))) \<and>
         (\<exists>loaded. load_written json_decode (write_ordereddict_to_csv od) = Inr loaded \<and>
            interest_lists loaded = Some od \<and>
            map_option write_ordereddict_to_csv (interest_lists loaded) =
              Some (write_ordereddict_to_csv od))"
proof (intro conjI)
  show "\<forall>xs ys. json_dumps xs = json_dumps ys \<longrightarrow> xs = ys"
    by (auto dest: json_dumps_inj)
  show "\<forall>item \<in> set od. json_decode (json_dumps (snd item)) = Some (Interests (snd item))"
    by (simp add: json_decode_json_dumps)
  let ?loaded = "map (\<lambda>item. (fst item, Interests (snd item))) od"
  have "csv_reader (write_ordereddict_to_csv od) = Inr (write_ordereddict_to_csv od)"
    using assms(3) by (rule csv_reader_within_limit)
  then have "load_written json_decode (write_ordereddict_to_csv od) =
      load_csv_into_ordereddict json_decode (Some (csv_file (map written_entry od)))"
    by (simp add: load_written_def write_as_csv_file)
  also have "\<dots> = Inr (map (loaded_entry json_decode) (map written_entry od))"
    using distinct_written_keys [OF assms(1,2)] by (rule load_csv_file_distinct)
  also have "map (loaded_entry json_decode) (map written_entry od) = ?loaded"
    using assms(2) by (simp add: loaded_written_entry)
  finally have "load_written json_decode (write_ordereddict_to_csv od) = Inr ?loaded" .
  moreover have "interest_lists ?loaded = Some od"
    by (rule interest_lists_Interests)
  ultimately show "\<exists>loaded. load_written json_decode (write_ordereddict_to_csv od) = Inr loaded \<and>
      interest_lists loaded = Some od \<and>
      map_option write_ordereddict_to_csv (interest_lists loaded) =
        Some (write_ordereddict_to_csv od)"
    by simp
qed

theorem save_load_save_witness:
  "distinct (od_keys [((Some ''a.txt'', Some ''Alice''), [''chess'', ''reading'']),
                      ((Some ''b.txt'', Some ''Bob''), [])]) \<and>
   load_written json_decode (write_ordereddict_to_csv
     [((Some ''a.txt'', Some ''Alice''), [''chess'', ''reading'']), ((Some ''b.txt'', Some ''Bob''), [])]) =
     Inr [((Some ''a.txt'', Some ''Alice''), Interests [''chess'', ''reading'']),
          ((Some ''b.txt'', Some ''Bob''), Interests [])]"
proof -
  let ?od = "[((Some ''a.txt'', Some ''Alice''), [''chess'', ''reading'']),
              ((Some ''b.txt'', Some ''Bob''), [])]"
  have h: "distinct (od_keys ?od)"
    "\<forall>item \<in> set ?od. fst (fst item) \<noteq> None \<and> snd (fst item) \<noteq> None"
    "\<forall>row \<in> set (write_ordereddict_to_csv ?od). \<forall>cell \<in> set row. length cell \<le> field_size_limit"
    by (simp_all add: od_keys_def write_ordereddict_to_csv_def CSV_FIELDS_def cell_text_def
        json_dumps_def py_encode_basestring_def json_escape_def field_size_limit_def)
  from save_load_save [OF h]
  obtain loaded where l: "load_written json_decode (write_ordereddict_to_csv ?od) = Inr loaded"
    and i: "interest_lists loaded = Some ?od"
    by blast
  have "load_written json_decode (write_ordereddict_to_csv ?od) =
      Inr [((Some ''a.txt'', Some ''Alice''), Interests [''chess'', ''reading'']),
           ((Some ''b.txt'', Some ''Bob''), Interests [])]"
    using csv_reader_within_limit [OF h(3)]
    by (simp add: load_written_def write_as_csv_file written_entry_def
        load_csv_file loaded_entry_def json_decode_json_dumps cell_text_def)
  with l i h(1) show ?thesis by simp
qed

theorem save_follows_stored_order_counterexample:
  "od_interests (upsert id [((Some ''a.txt'', Some ''Alice''), [''chess''])]
       (Some ''a.txt'', Some ''Alice'') [''reading'']) (Some ''a.txt'', Some ''Alice'') =
   od_interests (upsert rev [((Some ''a.txt'', Some ''Alice''), [''chess''])]
       (Some ''a.txt'', Some ''Alice'') [''reading'']) (Some ''a.txt'', Some ''Alice'') \<and>
   write_ordereddict_to_csv (upsert id [((Some ''a.txt'', Some ''Alice''), [''chess''])]
       (Some ''a.txt'', Some ''Alice'') [''reading'']) \<noteq>
   write_ordereddict_to_csv (upsert rev [((Some ''a.txt'', Some ''Alice''), [''chess''])]
       (Some ''a.txt'', Some ''Alice'') [''reading'']) \<and>
   load_written json_decode (write_ordereddict_to_csv
       [((Some ''a.txt'', Some ''Alice''), [replicate 131073 (CHR ''a'')])]) = Inl CsvError"
proof (intro conjI)
  let ?K = "(Some ''a.txt'', Some ''Alice'')"
  let ?od = "[(?K, [''chess''])]"
  have i: "upsert id ?od ?K [''reading''] = [(?K, [''chess'', ''reading''])]"
    by (simp add: upsert_def od_getitem_def od_delitem_def py_list_def py_set_def py_set_union_def)
  have r: "upsert rev ?od ?K [''reading''] = [(?K, [''reading'', ''chess''])]"
    by (simp add: upsert_def od_getitem_def od_delitem_def py_list_def py_set_def py_set_union_def
        doubleton_eq_iff)
  show "od_interests (upsert id ?od ?K [''reading'']) ?K =
      od_interests (upsert rev ?od ?K [''reading'']) ?K"
    by (simp add: i r od_interests_def od_getitem_def doubleton_eq_iff)
  have "json_dumps [''chess'', ''reading''] \<noteq> json_dumps [''reading'', ''chess'']"
    using json_dumps_inj [of "[''chess'', ''reading'']" "[''reading'', ''chess'']"] by auto
  then show "write_ordereddict_to_csv (upsert id ?od ?K [''reading'']) \<noteq>
      write_ordereddict_to_csv (upsert rev ?od ?K [''reading''])"
    by (simp add: i r write_ordereddict_to_csv_def)
  show "load_written json_decode (write_ordereddict_to_csv
       [(?K, [replicate 131073 (CHR ''a'')])]) = Inl CsvError"
    by (rule load_written_beyond_limit) (simp add: field_size_limit_def)
qed




text \<open>
  Claim C6, amended. For a persisted source whose rows may share keys the loader succeeds
  with distinct keys; each key stands at the position of its first row (the keys of the
  ledger are those of the rows in order of first occurrence) and holds the interests of
  its last row; when no two rows share a key the ledger is the rows in file order.
  The claim as stated keeps the last row of each key, which would also move the key to
  the position of that row; \<^verbatim>\<open>od[key] = interests\<close> overwrites a key that is present in
  place.
\<close>
theorem load_duplicate_keys:
  "\<exists>od. load_csv_into_ordereddict json_loads (Some (csv_file entries)) = Inr od \<and>
     distinct (od_keys od) \<and>
     od_keys od = first_occurrences (map (\<lambda>entry. fst (loaded_entry json_loads entry)) entries) \<and>
     (\<forall>before key t after. entries = before @ (key, t) # after \<and> key \<notin> fst ` set after \<longrightarrow>
        od_getitem od (fst (loaded_entry json_loads (key, t))) =
          Some (snd (loaded_entry json_loads (key, t)))) \<and>
     (distinct (map fst entries) \<longrightarrow> od = map (loaded_entry json_loads) entries)"
proof -
  let ?items = "map (loaded_entry json_loads) entries"
  let ?od = "od_setitems [] ?items"
  have load: "load_csv_into_ordereddict json_loads (Some (csv_file entries)) = Inr ?od"
    by (rule load_csv_file)
  have keys: "od_keys ?od = first_occurrences (map (\<lambda>entry. fst (loaded_entry json_loads entry)) entries)"
  proof -
    have "od_keys ?od = py_set_union [] (map fst ?items)"
      using od_keys_setitems [of "[]" ?items] by (simp add: od_keys_def)
    then show ?thesis
      by (simp add: py_set_first_occurrences py_set_def py_set_union_def od_keys_def comp_def)
  qed
  have dist: "distinct (od_keys ?od)"
    by (simp only: keys) (simp add: first_occurrences_def)
  have last: "od_getitem ?od (fst (loaded_entry json_loads (key, t))) =
      Some (snd (loaded_entry json_loads (key, t)))"
    if e: "entries = before @ (key, t) # after" and a: "key \<notin> fst ` set after"
    for before key t after
  proof -
    let ?k = "fst (loaded_entry json_loads (key, t))"
    have "?k \<notin> fst ` set (map (loaded_entry json_loads) after)"
      using a by (force simp: loaded_entry_def)
    then have "od_getitem (od_setitems [] (map (loaded_entry json_loads) before @
        (?k, snd (loaded_entry json_loads (key, t))) # map (loaded_entry json_loads) after)) ?k =
        Some (snd (loaded_entry json_loads (key, t)))"
      by (rule od_getitem_setitems_last)
    then show ?thesis by (simp add: e)
  qed
  have nodup: "?od = ?items" if "distinct (map fst entries)"
    using load load_csv_file_distinct [OF that, of json_loads] by simp
  from load keys dist last nodup show ?thesis by blast
qed

theorem load_duplicate_keys_witness:
  "load_csv_into_ordereddict json_decode (Some (csv_file
      [((''a.txt'', ''Alice''), json_dumps [''chess'']), ((''b.txt'', ''Bob''), json_dumps [''golf'']),
       ((''a.txt'', ''Alice''), json_dumps [''reading''])])) =
     Inr [((Some ''a.txt'', Some ''Alice''), Interests [''reading'']),
          ((Some ''b.txt'', Some ''Bob''), Interests [''golf''])] \<and>
   od_keys [((Some ''a.txt'', Some ''Alice''), Interests [''reading'']),
            ((Some ''b.txt'', Some ''Bob''), Interests [''golf''])] =
     first_occurrences
       [(Some ''a.txt'', Some ''Alice''), (Some ''b.txt'', Some ''Bob''), (Some ''a.txt'', Some ''Alice'')] \<and>
   od_getitem [((Some ''a.txt'', Some ''Alice''), Interests [''reading'']),
               ((Some ''b.txt'', Some ''Bob''), Interests [''golf''])]
     (Some ''a.txt'', Some ''Alice'') = Some (Interests [''reading''])"
proof -
  let ?entries = "[((''a.txt'', ''Alice''), json_dumps [''chess'']), ((''b.txt'', ''Bob''), json_dumps [''golf'']),
       ((''a.txt'', ''Alice''), json_dumps [''reading''])]"
  let ?res = "[((Some ''a.txt'', Some ''Alice''), Interests [''reading'']),
               ((Some ''b.txt'', Some ''Bob''), Interests [''golf''])]"
  from load_duplicate_keys [of json_decode ?entries]
  obtain od where od: "load_csv_into_ordereddict json_decode (Some (csv_file ?entries)) = Inr od"
    and keys: "od_keys od = first_occurrences (map (\<lambda>entry. fst (loaded_entry json_decode entry)) ?entries)"
    and last: "\<forall>before key t after. ?entries = before @ (key, t) # after \<and> key \<notin> fst ` set after \<longrightarrow>
        od_getitem od (fst (loaded_entry json_decode (key, t))) =
          Some (snd (loaded_entry json_decode (key, t)))"
    by blast
  have eval: "load_csv_into_ordereddict json_decode (Some (csv_file ?entries)) = Inr ?res"
    by (simp add: load_csv_file loaded_entry_def json_decode_json_dumps)
  with od have "od = ?res" by simp
  with od keys last [rule_format, of "[((''a.txt'', ''Alice''), json_dumps [''chess'']), ((''b.txt'', ''Bob''), json_dumps [''golf''])]"
      "(''a.txt'', ''Alice'')" "json_dumps [''reading'']" "[]"]
  show ?thesis
    by (simp add: loaded_entry_def json_decode_json_dumps)
qed

theorem load_keeps_first_position_counterexample:
  "load_csv_into_ordereddict json_decode (Some (csv_file
      [((''a.txt'', ''Alice''), json_dumps [''chess'']), ((''b.txt'', ''Bob''), json_dumps [''golf'']),
       ((''a.txt'', ''Alice''), json_dumps [''reading''])])) =
     Inr [((Some ''a.txt'', Some ''Alice''), Interests [''reading'']),
          ((Some ''b.txt'', Some ''Bob''), Interests [''golf''])] \<and>
   map (loaded_entry json_decode) (keep_last_occurrence
      [((''a.txt'', ''Alice''), json_dumps [''chess'']), ((''b.txt'', ''Bob''), json_dumps [''golf'']),
       ((''a.txt'', ''Alice''), json_dumps [''reading''])]) =
     [((Some ''b.txt'', Some ''Bob''), Interests [''golf'']),
      ((Some ''a.txt'', Some ''Alice''), Interests [''reading''])] \<and>
   load_csv_into_ordereddict json_decode (Some (csv_file
      [((''a.txt'', ''Alice''), json_dumps [''chess'']), ((''b.txt'', ''Bob''), json_dumps [''golf'']),
       ((''a.txt'', ''Alice''), json_dumps [''reading''])])) \<noteq>
     Inr (map (loaded_entry json_decode) (keep_last_occurrence
      [((''a.txt'', ''Alice''), json_dumps [''chess'']), ((''b.txt'', ''Bob''), json_dumps [''golf'']),
       ((''a.txt'', ''Alice''), json_dumps [''reading''])]))"
  by (simp add: load_csv_file loaded_entry_def json_decode_json_dumps)

end
